theory Spec2Isabelle
  imports Main
begin

section \<open>Common vocabulary\<close>

text \<open>
  Time is the reading of \<open>time.time()\<close>, in milliseconds. A Python exception is
  represented by its message, the value of \<open>str(e)\<close>. Only instances of \<open>Exception\<close>
  are modelled: cancellation and process interruption, which are \<open>BaseException\<close>s
  that no handler of the program catches, are outside the model.
\<close>

type_synonym time = nat

datatype exn = Exn (message: string)

section \<open>The HTTP-retry paginator (scrape_federal_corporations.py)\<close>

text \<open>
  What one execution of the \<open>try\<close> block in \<open>main\<close> does: \<open>session.get\<close> returns a
  response whose status is good, or a response for which \<open>raise_for_status\<close> raises
  an \<open>HTTPError\<close>, or \<open>session.get\<close> itself raises a \<open>RequestException\<close>, or some
  other exception is raised, which the handler does not catch.
\<close>

datatype attempt_outcome =
    Good string
  | BadStatus
  | RequestFailed
  | OtherFailure exn

text \<open>The variable \<open>response\<close>: \<open>None\<close>, or a response with its \<open>ok\<close> flag and text.\<close>

datatype response = Response (ok: bool) (body: string)

record retry_state =
  resp :: "response option"
  attempts :: nat
  sleeps :: "nat list"

definition max_retries :: nat where
  "max_retries = 5"

text \<open>
  The loop \<open>for attempt in range(max_retries)\<close>, run over the attempt numbers that
  are left. \<open>sleeps\<close> records the argument of every \<open>time.sleep(wait_time)\<close>, in
  seconds, in the order of the calls; \<open>attempts\<close> counts the calls of \<open>session.get\<close>.
\<close>

fun retry_loop ::
  "(nat \<Rightarrow> attempt_outcome) \<Rightarrow> nat \<Rightarrow> nat list \<Rightarrow> retry_state \<Rightarrow> exn + retry_state" where
  "retry_loop get m [] s = Inr s"
| "retry_loop get m (attempt # rest) s =
     (case get attempt of
        Good doc \<Rightarrow>
          Inr (s\<lparr>resp := Some (Response True doc), attempts := attempts s + 1\<rparr>)
      | OtherFailure e \<Rightarrow> Inl e
      | failed \<Rightarrow>
          (let s1 = s\<lparr>resp := (if failed = BadStatus then Some (Response False [])
                                else resp s),
                      attempts := attempts s + 1\<rparr>
           in if attempt + 1 = m then Inr s1
              else retry_loop get m rest
                     (s1\<lparr>sleeps := sleeps s1 @ [2 ^ (attempt + 1)]\<rparr>)))"

definition fetch_page :: "(nat \<Rightarrow> attempt_outcome) \<Rightarrow> nat \<Rightarrow> exn + retry_state" where
  "fetch_page get m =
     retry_loop get m [0..<m] \<lparr>resp = None, attempts = 0, sleeps = []\<rparr>"

text \<open>The test after the loop: \<open>if response is None or not response.ok: break\<close>.\<close>

definition aborts :: "retry_state \<Rightarrow> bool" where
  "aborts s = (case resp s of None \<Rightarrow> True | Some r \<Rightarrow> \<not> ok r)"

text \<open>
  The attempts that end in the handler \<open>except requests.RequestException\<close>: a bad
  status, for which \<open>raise_for_status\<close> raises, and a request that fails.
\<close>

definition failed_attempt :: "attempt_outcome \<Rightarrow> bool" where
  "failed_attempt r = (r = BadStatus \<or> r = RequestFailed)"

section \<open>Computations\<close>

text \<open>
  A computation runs from a state and either returns a value or raises an exception,
  leaving a new state. \<open>catch_io\<close> is \<open>try ... except Exception\<close>;
  \<open>finally_io\<close> is \<open>try ... finally\<close>, where an exception of the cleanup replaces
  the outcome of the body. A coroutine of one page is a computation on the clock:
  started at a time, it ends at a later time.
\<close>

type_synonym ('s, 'a) comp = "'s \<Rightarrow> (exn + 'a) \<times> 's"

type_synonym 'a io = "(time, 'a) comp"

definition return_io :: "'a \<Rightarrow> ('s, 'a) comp" where
  "return_io x = (\<lambda>t. (Inr x, t))"

definition raise_io :: "exn \<Rightarrow> ('s, 'a) comp" where
  "raise_io e = (\<lambda>t. (Inl e, t))"

definition bind_io :: "('s, 'a) comp \<Rightarrow> ('a \<Rightarrow> ('s, 'b) comp) \<Rightarrow> ('s, 'b) comp" where
  "bind_io m f =
     (\<lambda>t. case m t of (Inl e, t') \<Rightarrow> (Inl e, t') | (Inr x, t') \<Rightarrow> f x t')"

definition catch_io :: "('s, 'a) comp \<Rightarrow> (exn \<Rightarrow> ('s, 'a) comp) \<Rightarrow> ('s, 'a) comp" where
  "catch_io m h =
     (\<lambda>t. case m t of (Inl e, t') \<Rightarrow> h e t' | (Inr x, t') \<Rightarrow> (Inr x, t'))"

definition finally_io :: "('s, 'a) comp \<Rightarrow> ('s, unit) comp \<Rightarrow> ('s, 'a) comp" where
  "finally_io m cleanup =
     (\<lambda>t. case m t of
        (r, t') \<Rightarrow>
          (case cleanup t' of (Inl e, t'') \<Rightarrow> (Inl e, t'') | (Inr u, t'') \<Rightarrow> (r, t'')))"

text \<open>\<open>time.time()\<close>.\<close>

definition now_io :: "time io" where
  "now_io = (\<lambda>t. (Inr t, t))"

section \<open>The completion detector (_wait_for_results_smart)\<close>

text \<open>
  The three page queries of one poll: \<open>query_selector_all\<close> for the result boxes,
  \<open>query_selector\<close> for the text "No results found|No matches found", and
  \<open>query_selector\<close> for the text "Loading|Searching|Please wait". The answer is
  whether the query found anything, which is all the detector tests.
\<close>

datatype query = ResultItems | NoResultsMessage | LoadingIndicator

text \<open>
  The page, as the detector sees it: what a query started at a time answers (or the
  exception it raises), how long the query takes, and by how much a sleep started at
  a time overruns the delay asked for (\<open>asyncio.sleep\<close> resumes no earlier than
  asked).
\<close>

record page_env =
  respond :: "time \<Rightarrow> query \<Rightarrow> exn + bool"
  latency :: "time \<Rightarrow> query \<Rightarrow> nat"
  lag :: "time \<Rightarrow> nat"

definition query_io :: "page_env \<Rightarrow> query \<Rightarrow> bool io" where
  "query_io env q = (\<lambda>t. (respond env t q, t + latency env t q))"

definition sleep_io :: "page_env \<Rightarrow> nat \<Rightarrow> unit io" where
  "sleep_io env d = (\<lambda>t. (Inr (), t + d + lag env t))"

text \<open>The literals of the source, in milliseconds: 0.5, 3.0 and the default 8.0.\<close>

definition poll_interval :: nat where
  "poll_interval = 500"

definition grace_period :: nat where
  "grace_period = 3000"

definition default_max_wait :: nat where
  "default_max_wait = 8000"

text \<open>One iteration either executes \<open>return\<close> or reaches the end of the loop body.\<close>

datatype poll = Return | Again

definition sleep_again :: "page_env \<Rightarrow> poll io" where
  "sleep_again env = bind_io (sleep_io env poll_interval) (\<lambda>u. return_io Again)"

text \<open>The body of the \<open>try\<close> block.\<close>

definition poll_body :: "page_env \<Rightarrow> time \<Rightarrow> poll io" where
  "poll_body env start_time =
     bind_io (query_io env ResultItems) (\<lambda>results.
       if results then return_io Return
       else bind_io (query_io env NoResultsMessage) (\<lambda>no_results.
         if no_results then return_io Return
         else bind_io (query_io env LoadingIndicator) (\<lambda>loading.
           if \<not> loading
           then bind_io now_io (\<lambda>t.
                  if t - start_time > grace_period then return_io Return
                  else sleep_again env)
           else sleep_again env)))"

text \<open>The \<open>except Exception\<close> block.\<close>

definition poll_handler :: "page_env \<Rightarrow> time \<Rightarrow> exn \<Rightarrow> poll io" where
  "poll_handler env start_time e =
     bind_io now_io (\<lambda>t.
       if t - start_time > grace_period then return_io Return
       else sleep_again env)"

definition poll_once :: "page_env \<Rightarrow> time \<Rightarrow> poll io" where
  "poll_once env start_time =
     catch_io (poll_body env start_time) (poll_handler env start_time)"

text \<open>
  The loop \<open>while time.time() - start_time < max_wait\<close>. It ends because every
  iteration that does not return sleeps at least the poll interval.
\<close>

function wait_loop :: "page_env \<Rightarrow> time \<Rightarrow> nat \<Rightarrow> unit io" where
  "wait_loop env start_time max_wait t =
     (if t - start_time < max_wait
      then (case poll_once env start_time t of
              (Inl e, t') \<Rightarrow> (Inl e, t')
            | (Inr Return, t') \<Rightarrow> (Inr (), t')
            | (Inr Again, t') \<Rightarrow> wait_loop env start_time max_wait t')
      else (Inr (), t))"
  by pat_completeness auto
termination
proof (relation "measure (\<lambda>(env, start_time, max_wait, t). start_time + max_wait - t)")
  show "wf (measure (\<lambda>(env, start_time, max_wait, t). start_time + max_wait - t))"
    by simp
next
  fix env :: page_env and start_time max_wait t :: nat
    and r :: "exn + poll" and t' :: time and p :: poll
  assume running: "t - start_time < max_wait"
    and x: "(r, t') = poll_once env start_time t" "r = Inr p" "p = Again"
  from x have "poll_once env start_time t = (Inr Again, t')"
    by simp
  then have "t < t'"
    by (auto simp: poll_once_def poll_body_def poll_handler_def catch_io_def bind_io_def
        return_io_def now_io_def query_io_def sleep_io_def sleep_again_def
        poll_interval_def split: sum.splits if_splits prod.splits)
  with running
  show "((env, start_time, max_wait, t'), (env, start_time, max_wait, t))
        \<in> measure (\<lambda>(env, start_time, max_wait, t). start_time + max_wait - t)"
    by simp
qed

definition wait_for_results_smart :: "page_env \<Rightarrow> nat \<Rightarrow> unit io" where
  "wait_for_results_smart env max_wait = (\<lambda>t. wait_loop env t max_wait t)"

section \<open>Search outcomes (SearchResult)\<close>

text \<open>The dataclass, with its two defaults. \<open>search_time\<close> is in milliseconds.\<close>

record SearchResult =
  business_name :: string
  html_content :: string
  success :: bool
  error_message :: string
  search_time :: nat

definition default_error_message :: string where
  "default_error_message = []"

definition default_search_time :: nat where
  "default_search_time = 0"

section \<open>The resource pool (start, close, context selection)\<close>

text \<open>
  A browser is named by its position in the launch loop, a context by its browser and
  its position in the inner loop.
\<close>

datatype browser = Browser nat

datatype browser_context = Context nat nat

datatype resource = BrowserRes browser | ContextRes browser_context | Driver

text \<open>What a run has done that can be observed from outside.\<close>

datatype event = BatchRun "string list" | Pause nat

text \<open>
  The state of a run: the fields of the scraper object, and beside them the
  resources on which a close call has completed, the batches and pauses so far, and
  the clock.
\<close>

record state =
  max_concurrent :: int
  browser_pool_size :: int
  headless :: bool
  playwright :: bool
  browser_pool :: "browser list"
  context_pool :: "browser_context list"
  closed :: "resource list"
  trace :: "event list"
  clock :: time

text \<open>
  A step of the browser driver: its result, or the exception it raises, and the time
  it takes.
\<close>

type_synonym 'a step = "(exn + 'a) \<times> nat"

definition step_io :: "'a step \<Rightarrow> 'a io" where
  "step_io s = (\<lambda>t. (fst s, t + snd s))"

text \<open>What the driver does to one task: every awaited call of the task is a step.\<close>

record task_env =
  acquire_wait :: nat
  new_page :: "browser_context \<Rightarrow> unit step"
  goto :: "unit step"
  accept_cookies :: "unit step"
  wait_for_query_box :: "unit step"
  fill_query :: "unit step"
  button_count :: "string \<Rightarrow> nat step"
  button_click :: "string \<Rightarrow> unit step"
  wait_for_load :: "unit step"
  page :: page_env
  content :: "string step"
  close_page :: "unit step"

text \<open>
  What the driver does to a run: the calls of \<open>start\<close> and \<open>close\<close> raise or not,
  every task has its own driver, met at the batch that starts at an index and at a
  position in that batch, and a pause can overrun.
\<close>

record run_env =
  playwright_start :: "exn option"
  launch :: "nat \<Rightarrow> exn option"
  new_context :: "nat \<Rightarrow> nat \<Rightarrow> exn option"
  context_close :: "browser_context \<Rightarrow> exn option"
  browser_close :: "browser \<Rightarrow> exn option"
  playwright_stop :: "exn option"
  task :: "nat \<Rightarrow> nat \<Rightarrow> task_env"
  pause_lag :: "time \<Rightarrow> nat"

text \<open>The inner loop of \<open>start\<close>: \<open>for j in range(contexts_per_browser)\<close>.\<close>

fun context_loop :: "run_env \<Rightarrow> nat \<Rightarrow> nat list \<Rightarrow> (state, unit) comp" where
  "context_loop env i [] s = (Inr (), s)"
| "context_loop env i (j # js) s =
     (case new_context env i j of
        Some e \<Rightarrow> (Inl e, s)
      | None \<Rightarrow> context_loop env i js (s\<lparr>context_pool := context_pool s @ [Context i j]\<rparr>))"

text \<open>The outer loop: \<open>for i in range(self.browser_pool_size)\<close>.\<close>

fun launch_loop :: "run_env \<Rightarrow> nat list \<Rightarrow> (state, unit) comp" where
  "launch_loop env [] s = (Inr (), s)"
| "launch_loop env (i # rest) s =
     (case launch env i of
        Some e \<Rightarrow> (Inl e, s)
      | None \<Rightarrow>
          (let s1 = s\<lparr>browser_pool := browser_pool s @ [Browser i]\<rparr>;
               contexts_per_browser = max 1 (max_concurrent s1 div browser_pool_size s1)
           in case context_loop env i [0..<nat contexts_per_browser] s1 of
                (Inl e, s2) \<Rightarrow> (Inl e, s2)
              | (Inr u, s2) \<Rightarrow> launch_loop env rest s2))"

definition start :: "run_env \<Rightarrow> (state, unit) comp" where
  "start env s =
     (case playwright_start env of
        Some e \<Rightarrow> (Inl e, s)
      | None \<Rightarrow> launch_loop env [0..<nat (browser_pool_size s)] (s\<lparr>playwright := True\<rparr>))"

text \<open>
  \<open>close\<close>: every context, then every browser, each in its own \<open>try\<close>; then the
  driver, outside any \<open>try\<close>.
\<close>

definition close_contexts :: "run_env \<Rightarrow> state \<Rightarrow> state" where
  "close_contexts env s =
     fold (\<lambda>c s'. case context_close env c of
                     None \<Rightarrow> s'\<lparr>closed := closed s' @ [ContextRes c]\<rparr>
                   | Some e \<Rightarrow> s')
       (context_pool s) s"

definition close_browsers :: "run_env \<Rightarrow> state \<Rightarrow> state" where
  "close_browsers env s =
     fold (\<lambda>b s'. case browser_close env b of
                     None \<Rightarrow> s'\<lparr>closed := closed s' @ [BrowserRes b]\<rparr>
                   | Some e \<Rightarrow> s')
       (browser_pool s) s"

definition close :: "run_env \<Rightarrow> (state, unit) comp" where
  "close env s =
     (let s1 = close_browsers env (close_contexts env s)
      in if playwright s1
         then (case playwright_stop env of
                 Some e \<Rightarrow> (Inl e, s1)
               | None \<Rightarrow> (Inr (), s1\<lparr>closed := closed s1 @ [Driver]\<rparr>))
         else (Inr (), s1))"

text \<open>
  \<open>async with scraper\<close>: \<open>__aenter__\<close> is \<open>start\<close>; when it raises, the block is
  not entered and \<open>__aexit__\<close> is not called. \<open>__aexit__\<close> is \<open>close\<close> and returns
  nothing, so an exception of the body is raised again after it.
\<close>

definition async_with :: "run_env \<Rightarrow> (state, 'a) comp \<Rightarrow> (state, 'a) comp" where
  "async_with env block = bind_io (start env) (\<lambda>u. finally_io block (close env))"

text \<open>
  \<open>_get_available_context\<close>: the index is the length of the pool modulo itself.
\<close>

definition get_available_context :: "browser_context list \<Rightarrow> exn + browser_context" where
  "get_available_context pool =
     (let context_index = (if pool \<noteq> [] then length pool mod length pool else 0)
      in if context_index < length pool then Inr (pool ! context_index)
         else Inl (Exn ''list index out of range''))"

text \<open>
  The selection that \<open>search_business_optimized\<close> makes itself:
  \<open>self.context_pool[context_id % len(self.context_pool)]\<close>.
\<close>

definition select_context :: "browser_context list \<Rightarrow> int \<Rightarrow> exn + browser_context" where
  "select_context pool context_id =
     (if pool = [] then Inl (Exn ''integer modulo by zero'')
      else Inr (pool ! nat (context_id mod int (length pool))))"

section \<open>The fetch task (search_business_optimized)\<close>

definition search_button_selectors :: "string list" where
  "search_button_selectors =
     [''button[type='submit']'', ''input[type='submit']'', ''button:has-text('Search')'',
      ''button:has-text('SEARCH')'', ''input[value='Search']'', ''input[value='SEARCH']'',
      ''#nodeW20'']"

text \<open>
  The loop over the selectors. One iteration answers whether it has clicked: the
  \<open>break\<close> after a click is the answer \<open>True\<close>; a count of zero, and an exception
  of \<open>count\<close> or of \<open>click\<close>, which \<open>except Exception: continue\<close> swallows, are
  the answer \<open>False\<close>.
\<close>

definition try_selector :: "task_env \<Rightarrow> string \<Rightarrow> bool io" where
  "try_selector env selector =
     catch_io
       (bind_io (step_io (button_count env selector)) (\<lambda>n.
          if n > 0
          then bind_io (step_io (button_click env selector)) (\<lambda>u. return_io True)
          else return_io False))
       (\<lambda>e. return_io False)"

fun click_first :: "task_env \<Rightarrow> string list \<Rightarrow> bool io" where
  "click_first env [] = return_io False"
| "click_first env (selector # rest) =
     bind_io (try_selector env selector) (\<lambda>search_clicked.
       if search_clicked then return_io True else click_first env rest)"

text \<open>
  The cookie banner: the click and the sleep after it, inside \<open>try ... except:
  pass\<close>.
\<close>

definition quick_cookie_handling :: "task_env \<Rightarrow> unit io" where
  "quick_cookie_handling env =
     catch_io
       (bind_io (step_io (accept_cookies env)) (\<lambda>u. sleep_io (page env) 500))
       (\<lambda>e. return_io ())"

definition no_button_message :: string where
  "no_button_message = ''Could not find or click the search button''"

text \<open>The inner \<open>try\<close> block, from the navigation to the \<open>return\<close>.\<close>

definition use_page :: "task_env \<Rightarrow> string \<Rightarrow> time \<Rightarrow> SearchResult io" where
  "use_page env name start_time =
     bind_io (step_io (goto env)) (\<lambda>u.
     bind_io (quick_cookie_handling env) (\<lambda>u.
     bind_io (step_io (wait_for_query_box env)) (\<lambda>u.
     bind_io (step_io (fill_query env)) (\<lambda>u.
     bind_io (click_first env search_button_selectors) (\<lambda>search_clicked.
       if \<not> search_clicked then raise_io (Exn no_button_message)
       else
         bind_io (step_io (wait_for_load env)) (\<lambda>u.
         bind_io (wait_for_results_smart (page env) default_max_wait) (\<lambda>u.
         bind_io (step_io (content env)) (\<lambda>html.
         bind_io now_io (\<lambda>t.
           return_io \<lparr>business_name = name, html_content = html, success = True,
                      error_message = default_error_message,
                      search_time = t - start_time\<rparr>))))))))) "

text \<open>
  The outer \<open>try\<close> block: the context, a new page on it, the inner block, and
  \<open>page.close()\<close> in its \<open>finally\<close>.
\<close>

definition with_page ::
  "task_env \<Rightarrow> browser_context list \<Rightarrow> string \<Rightarrow> int \<Rightarrow> time \<Rightarrow> SearchResult io" where
  "with_page env pool name context_id start_time =
     bind_io (\<lambda>t. (select_context pool context_id, t)) (\<lambda>ctx.
     bind_io (step_io (new_page env ctx)) (\<lambda>u.
       finally_io (use_page env name start_time) (step_io (close_page env))))"

text \<open>The \<open>except Exception as e\<close> block of the task.\<close>

definition failed_search :: "string \<Rightarrow> time \<Rightarrow> exn \<Rightarrow> SearchResult io" where
  "failed_search name start_time e =
     bind_io now_io (\<lambda>t.
       return_io \<lparr>business_name = name, html_content = [], success = False,
                  error_message = message e, search_time = t - start_time\<rparr>)"

text \<open>
  The task: it reads the clock, waits for a permit of the semaphore, and runs the
  outer \<open>try\<close> with its handler.
\<close>

definition search_business_optimized ::
  "task_env \<Rightarrow> browser_context list \<Rightarrow> string \<Rightarrow> int \<Rightarrow> SearchResult io" where
  "search_business_optimized env pool name context_id =
     bind_io now_io (\<lambda>start_time.
     bind_io (\<lambda>t. (Inr (), t + acquire_wait env)) (\<lambda>u.
       catch_io (with_page env pool name context_id start_time)
         (failed_search name start_time)))"

section \<open>The orchestrator (search_multiple_businesses, batch_search_businesses)\<close>

text \<open>
  The loop over the results of \<open>asyncio.gather(*tasks, return_exceptions=True)\<close>,
  which holds one entry for every task, an exception object or a returned value.
\<close>

definition process_results :: "string list \<Rightarrow> (exn + SearchResult) list \<Rightarrow> SearchResult list" where
  "process_results business_names results =
     map (\<lambda>(i, result).
            case result of
              Inl e \<Rightarrow> \<lparr>business_name = business_names ! i, html_content = [],
                         success = False, error_message = message e,
                         search_time = default_search_time\<rparr>
            | Inr r \<Rightarrow> r)
       (enumerate 0 results)"

text \<open>
  \<open>gather\<close> runs the tasks from the time of the call, returns when the last one has
  finished, and lists the results in the order of the tasks.
\<close>

definition gather :: "'a io list \<Rightarrow> (time, (exn + 'a) list) comp" where
  "gather tasks =
     (\<lambda>t. (Inr (map (\<lambda>task. fst (task t)) tasks),
           fold max (map (\<lambda>task. snd (task t)) tasks) t))"

definition search_multiple_businesses ::
  "(nat \<Rightarrow> task_env) \<Rightarrow> string list \<Rightarrow> (state, SearchResult list) comp" where
  "search_multiple_businesses envs business_names s =
     (if business_names \<noteq> [] \<and> context_pool s = []
      then (Inl (Exn ''integer modulo by zero''), s)
      else
        (let tasks = map (\<lambda>(i, business_name).
                       search_business_optimized (envs i) (context_pool s) business_name
                         (int i mod int (length (context_pool s))))
                     (enumerate 0 business_names)
         in case gather tasks (clock s) of
              (Inl e, t) \<Rightarrow> (Inl e, s\<lparr>clock := t\<rparr>)
            | (Inr results, t) \<Rightarrow>
                (Inr (process_results business_names results), s\<lparr>clock := t\<rparr>)))"

definition pause :: "run_env \<Rightarrow> state \<Rightarrow> state" where
  "pause env s =
     s\<lparr>trace := trace s @ [Pause 2000],
       clock := clock s + 2000 + pause_lag env (clock s)\<rparr>"

text \<open>
  The loop \<open>for i in range(0, len(business_names), batch_size)\<close> for a positive
  step; \<open>range\<close> raises for the step 0 before the loop is entered.
\<close>

function batch_loop ::
  "run_env \<Rightarrow> string list \<Rightarrow> nat \<Rightarrow> nat \<Rightarrow> SearchResult list \<Rightarrow> (state, SearchResult list) comp"
  where
  "batch_loop env business_names batch_size i all_results s =
     (if 0 < batch_size \<and> i < length business_names
      then
        (let batch = take batch_size (drop i business_names)
         in case search_multiple_businesses (task env i) batch
                   (s\<lparr>trace := trace s @ [BatchRun batch]\<rparr>) of
              (Inl e, s1) \<Rightarrow> (Inl e, s1)
            | (Inr batch_results, s1) \<Rightarrow>
                batch_loop env business_names batch_size (i + batch_size)
                  (all_results @ batch_results)
                  (if i + batch_size < length business_names then pause env s1 else s1))
      else (Inr all_results, s))"
  by pat_completeness auto
termination
  by (relation "measure (\<lambda>(env, business_names, batch_size, i, all_results, s).
        length business_names - i)") auto

text \<open>
  The constructor, with \<open>browser_pool_size\<close> at its default 3; the semaphore it
  creates refuses a negative value.
\<close>

definition new_scraper :: "int \<Rightarrow> time \<Rightarrow> state" where
  "new_scraper n t =
     \<lparr>max_concurrent = n, browser_pool_size = 3, headless = False, playwright = False,
      browser_pool = [], context_pool = [], closed = [], trace = [], clock = t\<rparr>"

definition batch_search_businesses ::
  "run_env \<Rightarrow> string list \<Rightarrow> int \<Rightarrow> time \<Rightarrow> (exn + SearchResult list) \<times> state" where
  "batch_search_businesses env business_names batch_size t =
     (if batch_size < 0
      then (Inl (Exn ''Semaphore initial value must be >= 0''), new_scraper batch_size t)
      else async_with env
             (if batch_size = 0 then raise_io (Exn ''range() arg 3 must not be zero'')
              else batch_loop env business_names (nat batch_size) 0 [])
             (new_scraper batch_size t))"

section \<open>The limiter (asyncio.Semaphore under async with)\<close>

text \<open>
  A task is before its \<open>async with self.semaphore\<close>, inside it, or past it. The
  semaphore is a counter of free permits. A schedule is any sequence of attempts:
  a task that tries to enter while no permit is free stays suspended, and only a
  task that is inside can leave.
\<close>

datatype phase = Waiting | Holding | Released

datatype action = Acquire nat | Release nat

record limiter =
  permits :: nat
  phases :: "phase list"

definition new_limiter :: "nat \<Rightarrow> nat \<Rightarrow> limiter" where
  "new_limiter max_conc n = \<lparr>permits = max_conc, phases = replicate n Waiting\<rparr>"

fun step :: "limiter \<Rightarrow> action \<Rightarrow> limiter" where
  "step l (Acquire i) =
     (if i < length (phases l) \<and> phases l ! i = Waiting \<and> 0 < permits l
      then l\<lparr>permits := permits l - 1, phases := (phases l)[i := Holding]\<rparr>
      else l)"
| "step l (Release i) =
     (if i < length (phases l) \<and> phases l ! i = Holding
      then l\<lparr>permits := permits l + 1, phases := (phases l)[i := Released]\<rparr>
      else l)"

definition run_schedule :: "limiter \<Rightarrow> action list \<Rightarrow> limiter" where
  "run_schedule l schedule = foldl step l schedule"

definition in_flight :: "limiter \<Rightarrow> nat" where
  "in_flight l = length (filter (\<lambda>p. p = Holding) (phases l))"

section \<open>Notions of the specification: pool, batches, exhausted selectors\<close>

text \<open>
  The contexts of a pool of sessions \<open>bs\<close>, each with
  \<open>max(1, maxConcurrent // sessionCount)\<close> contexts, in the order of creation.
\<close>

definition spec_context_pool :: "state \<Rightarrow> nat list \<Rightarrow> browser_context list" where
  "spec_context_pool s bs =
     concat (map (\<lambda>i. map (Context i)
       [0..<nat (max 1 (max_concurrent s div browser_pool_size s))]) bs)"

text \<open>
  Contiguous batches of size \<open>n\<close>, the last one possibly smaller, and the run that
  pauses once between two consecutive batches and not after the last.
\<close>

function spec_batches :: "nat \<Rightarrow> 'a list \<Rightarrow> 'a list list" where
  "spec_batches n xs =
     (if n = 0 \<or> xs = [] then [] else take n xs # spec_batches n (drop n xs))"
  by pat_completeness auto
termination
  by (relation "measure (\<lambda>(n, xs). length xs)") auto



text \<open>
  A selector that leads to no click: \<open>count\<close> raises, or counts no button, or
  \<open>click\<close> raises. The search for the submit control is exhausted when this holds of
  every selector of the list.
\<close>

definition cannot_click :: "task_env \<Rightarrow> string \<Rightarrow> bool" where
  "cannot_click env selector =
     (case fst (button_count env selector) of
        Inl e \<Rightarrow> True
      | Inr n \<Rightarrow> n = 0 \<or> isl (fst (button_click env selector)))"

section \<open>Example environments\<close>

text \<open>A server that fails the first request of a page and answers the second.\<close>

definition get_fail_once :: "nat \<Rightarrow> attempt_outcome" where
  "get_fail_once a = (if a = 0 then RequestFailed else Good ''page'')"

text \<open>A server that fails two requests and answers the third.\<close>

definition get_fail_twice :: "nat \<Rightarrow> attempt_outcome" where
  "get_fail_twice a = (if a < 2 then RequestFailed else Good ''page'')"

text \<open>A server that never answers: its requests fail or come back with a bad status.\<close>

definition get_never_answers :: "nat \<Rightarrow> attempt_outcome" where
  "get_never_answers a = (if even a then RequestFailed else BadStatus)"

text \<open>
  Three pages with instantaneous queries and exact sleeps: one on which nothing ever
  appears, one that shows only a loading indicator for ever, and one whose every
  query raises.
\<close>

definition env_idle :: page_env where
  "env_idle = \<lparr>respond = (\<lambda>t q. Inr False), latency = (\<lambda>t q. 0), lag = (\<lambda>t. 0)\<rparr>"

definition env_busy :: page_env where
  "env_busy =
     \<lparr>respond = (\<lambda>t q. Inr (q = LoadingIndicator)), latency = (\<lambda>t q. 0), lag = (\<lambda>t. 0)\<rparr>"

definition env_closed :: page_env where
  "env_closed =
     \<lparr>respond = (\<lambda>t q. Inl (Exn ''Target closed'')), latency = (\<lambda>t q. 0),
      lag = (\<lambda>t. 0)\<rparr>"

text \<open>A page whose every query raises only after 10 s.\<close>

definition env_slow_failure :: page_env where
  "env_slow_failure =
     \<lparr>respond = (\<lambda>t q. Inl (Exn ''Timeout 10000ms exceeded'')), latency = (\<lambda>t q. 10000),
      lag = (\<lambda>t. 0)\<rparr>"

text \<open>
  A driver on whose page no selector of the list matches a button, one whose
  \<open>page.close()\<close> fails as well, and one on which the first selector is clicked and
  results are there at the first poll.
\<close>

definition task_no_button :: task_env where
  "task_no_button =
     \<lparr>acquire_wait = 0, new_page = (\<lambda>c. (Inr (), 10)), goto = (Inr (), 300),
      accept_cookies = (Inl (Exn ''Timeout 2000ms exceeded''), 2000),
      wait_for_query_box = (Inr (), 20), fill_query = (Inr (), 5),
      button_count = (\<lambda>sel. (Inr 0, 1)), button_click = (\<lambda>sel. (Inr (), 30)),
      wait_for_load = (Inr (), 100), page = env_idle, content = (Inr ''<html>'', 5),
      close_page = (Inr (), 10)\<rparr>"

definition task_close_fails :: task_env where
  "task_close_fails = task_no_button\<lparr>close_page := (Inl (Exn ''Connection closed''), 10)\<rparr>"

definition task_found :: task_env where
  "task_found =
     task_no_button
       \<lparr>button_count := (\<lambda>sel. (Inr 1, 1)),
        page := \<lparr>respond = (\<lambda>t q. Inr (q = ResultItems)), latency = (\<lambda>t q. 0),
                 lag = (\<lambda>t. 0)\<rparr>\<rparr>"

text \<open>
  A run on which every call of the pool succeeds, and one on which the launch of the
  second browser fails.
\<close>

definition env_all_ok :: run_env where
  "env_all_ok =
     \<lparr>playwright_start = None, launch = (\<lambda>i. None), new_context = (\<lambda>i j. None),
      context_close = (\<lambda>c. None), browser_close = (\<lambda>b. None), playwright_stop = None,
      task = (\<lambda>i j. if even j then task_found else task_no_button),
      pause_lag = (\<lambda>t. 0)\<rparr>"

definition env_second_launch_fails :: run_env where
  "env_second_launch_fails =
     env_all_ok\<lparr>launch := (\<lambda>i. if i = 1 then Some (Exn ''launch failed'') else None)\<rparr>"



section \<open>Verification: the HTTP-retry paginator\<close>

lemma retry_loop_inv:
  assumes "retry_loop get m [k..<m] s = Inr s'" "k < m" "attempts s = k"
    "sleeps s = map (\<lambda>a. 2 ^ (a + 1)) [0..<k]"
  shows "k < attempts s' \<and> attempts s' \<le> m \<and>
         sleeps s' = map (\<lambda>a. 2 ^ (a + 1)) [0..<attempts s' - 1]"
  using assms
proof (induction "m - k" arbitrary: k s)
  case 0
  then show ?case by simp
next
  case (Suc n)
  have up: "[k..<m] = k # [Suc k..<m]"
    using Suc.prems(2) by (simp add: upt_conv_Cons)
  show ?case
  proof (cases "get k")
    case (Good doc)
    then show ?thesis using Suc.prems up by auto
  next
    case (OtherFailure e)
    then show ?thesis using Suc.prems up by auto
  next
    case BadStatus
    show ?thesis
    proof (cases "Suc k = m")
      case True
      then show ?thesis using Suc.prems up BadStatus by auto
    next
      case False
      let ?s2 = "s\<lparr>resp := Some (Response False []), attempts := attempts s + 1,
          sleeps := sleeps s @ [2 ^ (k + 1)]\<rparr>"
      have r: "retry_loop get m [Suc k..<m] ?s2 = Inr s'"
        using Suc.prems up BadStatus False by (simp add: Let_def)
      have "Suc k < attempts s' \<and> attempts s' \<le> m \<and>
         sleeps s' = map (\<lambda>a. 2 ^ (a + 1)) [0..<attempts s' - 1]"
        by (rule Suc.hyps(1)[OF _ r]) (use Suc.prems Suc.hyps(2) False in auto)
      then show ?thesis by simp
    qed
  next
    case RequestFailed
    show ?thesis
    proof (cases "Suc k = m")
      case True
      then show ?thesis using Suc.prems up RequestFailed by auto
    next
      case False
      let ?s2 = "s\<lparr>resp := resp s, attempts := attempts s + 1,
          sleeps := sleeps s @ [2 ^ (k + 1)]\<rparr>"
      have r: "retry_loop get m [Suc k..<m] ?s2 = Inr s'"
        using Suc.prems up RequestFailed False by (simp add: Let_def)
      have "Suc k < attempts s' \<and> attempts s' \<le> m \<and>
         sleeps s' = map (\<lambda>a. 2 ^ (a + 1)) [0..<attempts s' - 1]"
        by (rule Suc.hyps(1)[OF _ r]) (use Suc.prems Suc.hyps(2) False in auto)
      then show ?thesis by simp
    qed
  qed
qed

text \<open>
  C3, as the claim states it, fails: after the failed attempt number 0 the paginator
  sleeps 2 seconds, which is \<open>2 ^ (0 + 1)\<close> and not \<open>2 ^ 0\<close>.
\<close>

theorem retry_backoff_counterexample:
  "map_sum id sleeps (fetch_page get_fail_once max_retries) = Inr [2] \<and>
   [2::nat] \<noteq> [2 ^ 0]"
  by (simp add: fetch_page_def max_retries_def get_fail_once_def upt_conv_Cons)

lemma retry_loop_failed_step:
  assumes "failed_attempt (get j)" and "Suc j < m"
  shows "retry_loop get m [j..<m] s =
     retry_loop get m [Suc j..<m]
       (s\<lparr>resp := (if get j = BadStatus then Some (Response False []) else resp s),
          attempts := attempts s + 1, sleeps := sleeps s @ [2 ^ (j + 1)]\<rparr>)"
proof -
  have "[j..<m] = j # [Suc j..<m]" using assms(2) by (simp add: upt_conv_Cons)
  then show ?thesis
    using assms by (auto simp: failed_attempt_def Let_def)
qed

lemma retry_loop_answer:
  assumes "k < m" and "get k = Good doc" and "\<forall>a. j \<le> a \<and> a < k \<longrightarrow> failed_attempt (get a)"
    and "j \<le> k"
  shows "\<exists>s'. retry_loop get m [j..<m] s = Inr s' \<and> attempts s' = attempts s + (k - j) + 1 \<and>
           sleeps s' = sleeps s @ map (\<lambda>a. 2 ^ (a + 1)) [j..<k] \<and>
           resp s' = Some (Response True doc)"
  using assms(3,4)
proof (induction "k - j" arbitrary: j s)
  case 0
  then have "j = k" by simp
  moreover have "[k..<m] = k # [Suc k..<m]" using assms(1) by (simp add: upt_conv_Cons)
  ultimately show ?case using assms(2) by simp
next
  case (Suc n)
  then have jk: "j < k" by simp
  then have f: "failed_attempt (get j)" and m: "Suc j < m"
    using Suc.prems assms(1) by auto
  let ?s1 = "s\<lparr>resp := (if get j = BadStatus then Some (Response False []) else resp s),
          attempts := attempts s + 1, sleeps := sleeps s @ [2 ^ (j + 1)]\<rparr>"
  have "\<exists>s'. retry_loop get m [Suc j..<m] ?s1 = Inr s' \<and>
           attempts s' = attempts ?s1 + (k - Suc j) + 1 \<and>
           sleeps s' = sleeps ?s1 @ map (\<lambda>a. 2 ^ (a + 1)) [Suc j..<k] \<and>
           resp s' = Some (Response True doc)"
    using Suc.hyps(2) Suc.prems jk by (intro Suc.hyps(1)) auto
  moreover have "[j..<k] = j # [Suc j..<k]" using jk by (simp add: upt_conv_Cons)
  ultimately show ?case
    using retry_loop_failed_step [of get j m s, OF f m] jk by auto
qed

lemma retry_loop_exhausted:
  assumes "\<forall>a. j \<le> a \<and> a < m \<longrightarrow> failed_attempt (get a)" and "j < m" and "aborts s"
  shows "\<exists>s'. retry_loop get m [j..<m] s = Inr s' \<and> attempts s' = attempts s + (m - j) \<and>
           sleeps s' = sleeps s @ map (\<lambda>a. 2 ^ (a + 1)) [j..<m - 1] \<and> aborts s'"
  using assms
proof (induction "m - j" arbitrary: j s)
  case 0
  then show ?case by simp
next
  case (Suc n)
  have f: "failed_attempt (get j)" using Suc.prems by auto
  show ?case
  proof (cases "Suc j = m")
    case True
    then have "[j..<m] = [j]" by (metis upt_rec Suc.prems(2) upt_eq_Nil_conv le_refl)
    then have "retry_loop get m [j..<m] s =
        Inr (s\<lparr>resp := (if get j = BadStatus then Some (Response False []) else resp s),
               attempts := attempts s + 1\<rparr>)"
      using f True by (auto simp: failed_attempt_def Let_def)
    then show ?thesis
      using True Suc.prems(3) by (simp add: aborts_def)
  next
    case False
    then have m: "Suc j < m" using Suc.prems(2) by simp
    let ?s1 = "s\<lparr>resp := (if get j = BadStatus then Some (Response False []) else resp s),
          attempts := attempts s + 1, sleeps := sleeps s @ [2 ^ (j + 1)]\<rparr>"
    have a: "aborts ?s1" using Suc.prems(3) by (simp add: aborts_def)
    have "\<exists>s'. retry_loop get m [Suc j..<m] ?s1 = Inr s' \<and>
           attempts s' = attempts ?s1 + (m - Suc j) \<and>
           sleeps s' = sleeps ?s1 @ map (\<lambda>a. 2 ^ (a + 1)) [Suc j..<m - 1] \<and> aborts s'"
      using Suc.hyps(2) Suc.prems(1) m a by (intro Suc.hyps(1)) auto
    moreover have "[j..<m - 1] = j # [Suc j..<m - 1]" using m by (simp add: upt_conv_Cons)
    ultimately show ?thesis
      using retry_loop_failed_step [of get j m s, OF f m] m by auto
  qed
qed

text \<open>
  C3, amended: as long as the attempts of a page fail, the paginator sleeps
  \<open>2 ^ (a + 1)\<close> seconds after the failed attempt number \<open>a\<close> (0-based) and
  tries again: when the attempt number \<open>k\<close> is the first to answer, it has made
  \<open>k + 1\<close> attempts and slept 2, 4, ... \<open>2 ^ k\<close> seconds between them. When
  all five attempts fail, it has slept 2, 4, 8 and 16 seconds, sleeps no more after
  the fifth failure, and stops the pagination. In no case are there more than 5
  attempts for a page.
\<close>

theorem retry_backoff_schedule:
  "(k < max_retries \<and> get k = Good doc \<and> (\<forall>a<k. failed_attempt (get a)) \<longrightarrow>
      (\<exists>s. fetch_page get max_retries = Inr s \<and> attempts s = k + 1 \<and>
           sleeps s = map (\<lambda>a. 2 ^ (a + 1)) [0..<k] \<and>
           resp s = Some (Response True doc))) \<and>
   ((\<forall>a<max_retries. failed_attempt (get a)) \<longrightarrow>
      (\<exists>s. fetch_page get max_retries = Inr s \<and> attempts s = 5 \<and>
           sleeps s = [2, 4, 8, 16] \<and> aborts s)) \<and>
   (fetch_page get max_retries = Inr s \<longrightarrow>
      attempts s \<le> 5 \<and> sleeps s = map (\<lambda>a. 2 ^ (a + 1)) [0..<attempts s - 1])"
proof (intro conjI impI)
  assume a: "k < max_retries \<and> get k = Good doc \<and> (\<forall>a<k. failed_attempt (get a))"
  then show "\<exists>s. fetch_page get max_retries = Inr s \<and> attempts s = k + 1 \<and>
           sleeps s = map (\<lambda>a. 2 ^ (a + 1)) [0..<k] \<and> resp s = Some (Response True doc)"
    using retry_loop_answer [of k max_retries get doc 0
        "\<lparr>resp = None, attempts = 0, sleeps = []\<rparr>"]
    by (simp add: fetch_page_def)
next
  assume "\<forall>a<max_retries. failed_attempt (get a)"
  then have "\<exists>s'. retry_loop get max_retries [0..<max_retries]
       \<lparr>resp = None, attempts = 0, sleeps = []\<rparr> = Inr s' \<and>
     attempts s' = attempts \<lparr>resp = None, attempts = 0, sleeps = []\<rparr> + (max_retries - 0) \<and>
     sleeps s' = sleeps \<lparr>resp = None, attempts = 0, sleeps = []\<rparr> @
        map (\<lambda>a. 2 ^ (a + 1)) [0..<max_retries - 1] \<and> aborts s'"
    by (intro retry_loop_exhausted) (simp_all add: max_retries_def aborts_def)
  then show "\<exists>s. fetch_page get max_retries = Inr s \<and> attempts s = 5 \<and>
           sleeps s = [2, 4, 8, 16] \<and> aborts s"
    by (auto simp: fetch_page_def max_retries_def upt_conv_Cons)
next
  assume "fetch_page get max_retries = Inr s"
  then show "attempts s \<le> 5" "sleeps s = map (\<lambda>a. 2 ^ (a + 1)) [0..<attempts s - 1]"
    using retry_loop_inv [of get max_retries 0 "\<lparr>resp = None, attempts = 0, sleeps = []\<rparr>" s]
    by (simp_all add: fetch_page_def max_retries_def)
qed

theorem retry_backoff_schedule_witness:
  "fetch_page get_fail_twice max_retries =
     Inr \<lparr>resp = Some (Response True ''page''), attempts = 3, sleeps = [2, 4]\<rparr> \<and>
   fetch_page get_never_answers max_retries =
     Inr \<lparr>resp = Some (Response False []), attempts = 5, sleeps = [2, 4, 8, 16]\<rparr>"
proof -
  have a: "fetch_page get_fail_twice max_retries =
     Inr \<lparr>resp = Some (Response True ''page''), attempts = 3, sleeps = [2, 4]\<rparr>"
    by (simp add: fetch_page_def max_retries_def get_fail_twice_def upt_conv_Cons)
  have b: "fetch_page get_never_answers max_retries =
     Inr \<lparr>resp = Some (Response False []), attempts = 5, sleeps = [2, 4, 8, 16]\<rparr>"
    by (simp add: fetch_page_def max_retries_def get_never_answers_def upt_conv_Cons)
  have "\<exists>s. fetch_page get_fail_twice max_retries = Inr s \<and> attempts s = 2 + 1 \<and>
           sleeps s = map (\<lambda>a. 2 ^ (a + 1)) [0..<2] \<and>
           resp s = Some (Response True ''page'')"
    using retry_backoff_schedule [of 2 get_fail_twice "''page''"]
    by (simp add: max_retries_def get_fail_twice_def failed_attempt_def)
  moreover have "\<exists>s. fetch_page get_never_answers max_retries = Inr s \<and> attempts s = 5 \<and>
           sleeps s = [2, 4, 8, 16] \<and> aborts s"
    using retry_backoff_schedule [of 0 get_never_answers "''unused''"]
    by (simp add: get_never_answers_def failed_attempt_def)
  ultimately show ?thesis using a b by simp
qed

section \<open>Verification: the completion detector\<close>

declare wait_loop.simps [simp del]

lemmas io_defs = bind_io_def return_io_def raise_io_def catch_io_def finally_io_def now_io_def
lemmas poll_defs = poll_once_def poll_body_def poll_handler_def query_io_def sleep_io_def
  sleep_again_def poll_interval_def grace_period_def

lemma poll_once_returns: "\<exists>p t'. poll_once env s t = (Inr p, t') \<and> t \<le> t'"
  by (auto simp: poll_defs io_defs split: sum.splits prod.splits)

lemma wait_loop_returns: "\<exists>t'. wait_loop env s mw t = (Inr (), t') \<and> t \<le> t'"
proof (induction env s mw t rule: wait_loop.induct)
  case (1 env s mw t)
  show ?case
  proof (cases "t - s < mw")
    case False
    then show ?thesis by (simp add: wait_loop.simps)
  next
    case True
    obtain p t1 where p: "poll_once env s t = (Inr p, t1)" "t \<le> t1"
      using poll_once_returns by blast
    show ?thesis
    proof (cases p)
      case Return
      then show ?thesis using True p by (simp add: wait_loop.simps)
    next
      case Again
      from "1.IH"[OF True p(1)[symmetric] refl Again]
      obtain t' where "wait_loop env s mw t1 = (Inr (), t')" "t1 \<le> t'" by blast
      then show ?thesis using True p Again by (simp add: wait_loop.simps[of env s mw t])
    qed
  qed
qed


lemma poll_once_failing:
  assumes "\<forall>t q. isl (respond env t q)"
  shows "poll_once env s t =
    (let t1 = t + latency env t ResultItems in
     if t1 - s > 3000 then (Inr Return, t1) else (Inr Again, t1 + 500 + lag env t1))"
proof -
  have "isl (respond env t ResultItems)"
    using assms by blast
  then obtain e where "respond env t ResultItems = Inl e"
    by (cases "respond env t ResultItems") auto
  then show ?thesis
    by (simp add: poll_defs io_defs Let_def)
qed

lemma wait_loop_failing:
  assumes "\<forall>t q. isl (respond env t q)"
    and "\<forall>t q. latency env t q \<le> L" and "\<forall>t. lag env t \<le> S"
    and "wait_loop env s mw t = (Inr (), t')"
    and "s \<le> t" "t < s + mw + 500 + L + S"
  shows "(3000 < t' - s \<or> mw \<le> t' - s) \<and> t' < s + mw + 500 + L + S"
  using assms
proof (induction env s mw t rule: wait_loop.induct)
  case (1 env s mw t)
  note f = "1.prems"(1) and L = "1.prems"(2) and S = "1.prems"(3)
    and r = "1.prems"(4) and lo = "1.prems"(5) and hi = "1.prems"(6)
  show ?case
  proof (cases "t - s < mw")
    case False
    with r hi show ?thesis by (simp add: wait_loop.simps)
  next
    case True
    define t1 where "t1 = t + latency env t ResultItems"
    have t1: "t \<le> t1" "t1 \<le> t + L" using L by (simp_all add: t1_def)
    show ?thesis
    proof (cases "t1 - s > 3000")
      case True
      then have "poll_once env s t = (Inr Return, t1)"
        using poll_once_failing[OF f, of s t] by (simp add: t1_def Let_def)
      with r \<open>t - s < mw\<close> have "t' = t1" by (simp add: wait_loop.simps)
      with True t1 \<open>t - s < mw\<close> lo show ?thesis by simp
    next
      case False
      define t2 where "t2 = t1 + 500 + lag env t1"
      have p: "poll_once env s t = (Inr Again, t2)"
        using False poll_once_failing[OF f, of s t] by (simp add: t1_def t2_def Let_def)
      with r \<open>t - s < mw\<close> have r2: "wait_loop env s mw t2 = (Inr (), t')"
        by (simp add: wait_loop.simps[of env s mw t])
      have "lag env t1 \<le> S" using S by blast
      with t1 \<open>t - s < mw\<close> lo have b: "s \<le> t2" "t2 < s + mw + 500 + L + S"
        by (simp_all add: t2_def)
      show ?thesis
        by (rule "1.IH"[OF \<open>t - s < mw\<close> p[symmetric] refl refl f L S r2 b])
    qed
  qed
qed

lemma poll_once_quiet:
  assumes "\<forall>t. respond env t ResultItems = Inr False"
    and "\<forall>t. respond env t NoResultsMessage = Inr False"
    and "\<forall>t. respond env t LoadingIndicator = Inr b"
  shows "poll_once env s t =
    (let t1 = t + latency env t ResultItems;
         t2 = t1 + latency env t1 NoResultsMessage;
         t3 = t2 + latency env t2 LoadingIndicator
     in if \<not> b \<and> 3000 < t3 - s then (Inr Return, t3)
        else (Inr Again, t3 + 500 + lag env t3))"
  using assms by (simp add: poll_defs io_defs Let_def)

lemma three_queries:
  assumes "\<forall>t q. latency env t q \<le> L"
  shows "t \<le> t + latency env t ResultItems +
            latency env (t + latency env t ResultItems) NoResultsMessage +
            latency env (t + latency env t ResultItems +
               latency env (t + latency env t ResultItems) NoResultsMessage) LoadingIndicator"
   and "t + latency env t ResultItems +
            latency env (t + latency env t ResultItems) NoResultsMessage +
            latency env (t + latency env t ResultItems +
               latency env (t + latency env t ResultItems) NoResultsMessage) LoadingIndicator
        \<le> t + 3 * L"
proof -
  show "t \<le> t + latency env t ResultItems +
            latency env (t + latency env t ResultItems) NoResultsMessage +
            latency env (t + latency env t ResultItems +
               latency env (t + latency env t ResultItems) NoResultsMessage) LoadingIndicator"
    by simp
  have "latency env t ResultItems \<le> L"
    "latency env (t + latency env t ResultItems) NoResultsMessage \<le> L"
    "latency env (t + latency env t ResultItems +
               latency env (t + latency env t ResultItems) NoResultsMessage) LoadingIndicator \<le> L"
    using assms by blast+
  then show "t + latency env t ResultItems +
            latency env (t + latency env t ResultItems) NoResultsMessage +
            latency env (t + latency env t ResultItems +
               latency env (t + latency env t ResultItems) NoResultsMessage) LoadingIndicator
        \<le> t + 3 * L" by linarith
qed

lemma wait_loop_busy:
  assumes "\<forall>t. respond env t ResultItems = Inr False"
    and "\<forall>t. respond env t NoResultsMessage = Inr False"
    and "\<forall>t. respond env t LoadingIndicator = Inr True"
    and "\<forall>t q. latency env t q \<le> L" and "\<forall>t. lag env t \<le> S"
    and "wait_loop env s mw t = (Inr (), t')"
    and "s \<le> t" "t < s + mw + 500 + 3 * L + S"
  shows "s + mw \<le> t' \<and> t' < s + mw + 500 + 3 * L + S"
  using assms
proof (induction env s mw t rule: wait_loop.induct)
  case (1 env s mw t)
  note q = "1.prems"(1,2,3) and L = "1.prems"(4) and S = "1.prems"(5)
    and r = "1.prems"(6) and lo = "1.prems"(7) and hi = "1.prems"(8)
  show ?case
  proof (cases "t - s < mw")
    case False
    with r hi lo show ?thesis by (simp add: wait_loop.simps)
  next
    case True
    define t3 where "t3 = t + latency env t ResultItems +
            latency env (t + latency env t ResultItems) NoResultsMessage +
            latency env (t + latency env t ResultItems +
               latency env (t + latency env t ResultItems) NoResultsMessage) LoadingIndicator"
    have t3: "t \<le> t3" "t3 \<le> t + 3 * L"
      unfolding t3_def using three_queries[OF L] by blast+
    define t4 where "t4 = t3 + 500 + lag env t3"
    have p: "poll_once env s t = (Inr Again, t4)"
      using poll_once_quiet[OF q, of s t] by (simp add: t3_def t4_def Let_def)
    with r True have r2: "wait_loop env s mw t4 = (Inr (), t')"
      by (simp add: wait_loop.simps[of env s mw t])
    have "lag env t3 \<le> S" using S by blast
    with t3 True lo have b: "s \<le> t4" "t4 < s + mw + 500 + 3 * L + S"
      by (simp_all add: t4_def)
    show ?thesis
      by (rule "1.IH"[OF True p[symmetric] refl refl q L S r2 b])
  qed
qed

lemma wait_loop_idle:
  assumes "\<forall>t. respond env t ResultItems = Inr False"
    and "\<forall>t. respond env t NoResultsMessage = Inr False"
    and "\<forall>t. respond env t LoadingIndicator = Inr False"
    and "\<forall>t q. latency env t q \<le> L" and "\<forall>t. lag env t \<le> S"
    and "wait_loop env s mw t = (Inr (), t')"
    and "s \<le> t" "t \<le> s + 3000 + 500 + 3 * L + S"
  shows "(3000 < t' - s \<or> mw \<le> t' - s) \<and> t' \<le> s + 3000 + 500 + 6 * L + S"
  using assms
proof (induction env s mw t rule: wait_loop.induct)
  case (1 env s mw t)
  note q = "1.prems"(1,2,3) and L = "1.prems"(4) and S = "1.prems"(5)
    and r = "1.prems"(6) and lo = "1.prems"(7) and hi = "1.prems"(8)
  show ?case
  proof (cases "t - s < mw")
    case False
    with r hi lo show ?thesis by (simp add: wait_loop.simps)
  next
    case True
    define t3 where "t3 = t + latency env t ResultItems +
            latency env (t + latency env t ResultItems) NoResultsMessage +
            latency env (t + latency env t ResultItems +
               latency env (t + latency env t ResultItems) NoResultsMessage) LoadingIndicator"
    have t3: "t \<le> t3" "t3 \<le> t + 3 * L"
      unfolding t3_def using three_queries[OF L] by blast+
    show ?thesis
    proof (cases "3000 < t3 - s")
      case True
      then have "poll_once env s t = (Inr Return, t3)"
        using poll_once_quiet[OF q, of s t] by (simp add: t3_def Let_def)
      with r \<open>t - s < mw\<close> have "t' = t3" by (simp add: wait_loop.simps)
      with True t3 hi show ?thesis by simp
    next
      case False
      define t4 where "t4 = t3 + 500 + lag env t3"
      have p: "poll_once env s t = (Inr Again, t4)"
        using False poll_once_quiet[OF q, of s t] by (simp add: t3_def t4_def Let_def)
      with r True have r2: "wait_loop env s mw t4 = (Inr (), t')"
        by (simp add: wait_loop.simps[of env s mw t])
      have "lag env t3 \<le> S" using S by blast
      with t3 False lo have b: "s \<le> t4" "t4 \<le> s + 3000 + 500 + 3 * L + S"
        by (simp_all add: t4_def)
      show ?thesis
        by (rule "1.IH"[OF True p[symmetric] refl refl q L S r2 b])
    qed
  qed
qed

text \<open>
  C2, as the claim states it, fails: on a page where no marker and no loading
  indicator ever appears, the detector started at time 0 with the default budget of
  8 s returns at 3.5 s, the first poll that finds more than 3 s elapsed.
\<close>

theorem detector_grace_counterexample:
  "wait_for_results_smart env_idle default_max_wait 0 = (Inr (), 3500) \<and>
   3500 < default_max_wait"
  by (simp add: wait_for_results_smart_def wait_loop.simps poll_defs io_defs env_idle_def
      default_max_wait_def)

text \<open>
  C2, amended: let no results marker and no no-results marker ever appear, let every
  page query take at most \<open>L\<close> and every sleep overrun by at most \<open>S\<close>. The
  detector returns. If a loading indicator is present at every poll, it returns at
  the hard budget: not before \<open>max_wait\<close> has elapsed, and less than one loop
  iteration (the sleep of 0.5 s, the three queries and the overrun) after it. If no
  loading indicator is ever present and the budget exceeds the grace period, it
  returns once more than 3 s have elapsed, at most one iteration and three queries
  after the grace period.
\<close>

theorem detector_without_marker:
  assumes "\<forall>t. respond env t ResultItems = Inr False"
    and "\<forall>t. respond env t NoResultsMessage = Inr False"
    and "\<forall>t q. latency env t q \<le> L" and "\<forall>t. lag env t \<le> S"
  shows "\<exists>t'. wait_for_results_smart env max_wait t0 = (Inr (), t') \<and>
     ((\<forall>t. respond env t LoadingIndicator = Inr True) \<longrightarrow>
        t0 + max_wait \<le> t' \<and> t' < t0 + max_wait + (poll_interval + 3 * L + S)) \<and>
     ((\<forall>t. respond env t LoadingIndicator = Inr False) \<and> grace_period < max_wait \<longrightarrow>
        t0 + grace_period < t' \<and>
        t' \<le> t0 + grace_period + (poll_interval + 3 * L + S) + 3 * L)"
proof -
  obtain t' where r: "wait_loop env t0 max_wait t0 = (Inr (), t')"
    using wait_loop_returns by blast
  have busy: "t0 + max_wait \<le> t' \<and> t' < t0 + max_wait + (poll_interval + 3 * L + S)"
    if "\<forall>t. respond env t LoadingIndicator = Inr True"
    using wait_loop_busy [OF assms(1,2) that assms(3,4) r] by (simp add: poll_interval_def)
  have idle: "t0 + grace_period < t' \<and>
        t' \<le> t0 + grace_period + (poll_interval + 3 * L + S) + 3 * L"
    if "\<forall>t. respond env t LoadingIndicator = Inr False" "grace_period < max_wait"
    using wait_loop_idle [OF assms(1,2) that(1) assms(3,4) r] that(2)
    by (auto simp: poll_interval_def grace_period_def)
  from r busy idle show ?thesis
    by (auto simp: wait_for_results_smart_def)
qed

theorem detector_without_marker_witness:
  "wait_for_results_smart env_busy default_max_wait 0 = (Inr (), 8000) \<and>
   wait_for_results_smart env_idle default_max_wait 0 = (Inr (), 3500)"
proof -
  have busy: "\<exists>t'. wait_for_results_smart env_busy default_max_wait 0 = (Inr (), t') \<and>
      0 + default_max_wait \<le> t' \<and> t' < 0 + default_max_wait + (poll_interval + 3 * 0 + 0)"
    using detector_without_marker [of env_busy 0 0 default_max_wait 0]
    by (simp add: env_busy_def)
  have b: "wait_for_results_smart env_busy default_max_wait 0 = (Inr (), 8000)"
    by (simp add: wait_for_results_smart_def wait_loop.simps poll_defs io_defs env_busy_def
        default_max_wait_def)
  have idle: "\<exists>t'. wait_for_results_smart env_idle default_max_wait 0 = (Inr (), t') \<and>
      0 + grace_period < t' \<and> t' \<le> 0 + grace_period + (poll_interval + 3 * 0 + 0) + 3 * 0"
    using detector_without_marker [of env_idle 0 0 default_max_wait 0]
    by (simp add: env_idle_def default_max_wait_def grace_period_def)
  have i: "wait_for_results_smart env_idle default_max_wait 0 = (Inr (), 3500)"
    by (simp add: wait_for_results_smart_def wait_loop.simps poll_defs io_defs env_idle_def
        default_max_wait_def)
  from busy idle b i show ?thesis by simp
qed

text \<open>
  C10, as the claim states it, fails on its two bounds. When every query takes 10 s
  to raise, the detector started at time 0 with the default budget of 8 s returns at
  10 s, later than the budget and one poll interval. With a budget of 2 s and queries
  that raise at once, it returns at 2 s, before the grace period of 3 s has elapsed.
\<close>

theorem detector_late_return_counterexample:
  "wait_for_results_smart env_slow_failure default_max_wait 0 = (Inr (), 10000) \<and>
   default_max_wait + poll_interval < 10000 \<and>
   wait_for_results_smart env_closed 2000 0 = (Inr (), 2000) \<and>
   2000 < grace_period"
  by (simp add: wait_for_results_smart_def wait_loop.simps poll_defs io_defs
      env_slow_failure_def env_closed_def default_max_wait_def)

text \<open>
  C10, amended: the detector always returns and never raises: every exception of a
  page query is caught inside the loop. If every page query raises, taking at most
  \<open>L\<close>, and every sleep overruns by at most \<open>S\<close>, then it returns after the
  grace period of 3 s has elapsed when the budget exceeds the grace period, and in
  any case less than one poll interval, \<open>L\<close> and \<open>S\<close> after the budget.
\<close>

theorem detector_never_raises:
  "\<exists>t'. wait_for_results_smart env max_wait t0 = (Inr (), t') \<and> t0 \<le> t' \<and>
     ((\<forall>t q. isl (respond env t q)) \<and> (\<forall>t q. latency env t q \<le> L) \<and>
      (\<forall>t. lag env t \<le> S) \<longrightarrow>
        (grace_period < max_wait \<longrightarrow> grace_period < t' - t0) \<and>
        t' < t0 + max_wait + (poll_interval + L + S))"
proof -
  obtain t' where r: "wait_loop env t0 max_wait t0 = (Inr (), t')" "t0 \<le> t'"
    using wait_loop_returns by blast
  have "(grace_period < max_wait \<longrightarrow> grace_period < t' - t0) \<and>
        t' < t0 + max_wait + (poll_interval + L + S)"
    if "\<forall>t q. isl (respond env t q)" "\<forall>t q. latency env t q \<le> L" "\<forall>t. lag env t \<le> S"
    using wait_loop_failing [OF that r(1)]
    by (auto simp: poll_interval_def grace_period_def)
  with r show ?thesis
    by (auto simp: wait_for_results_smart_def)
qed

theorem detector_never_raises_witness:
  "wait_for_results_smart env_closed default_max_wait 0 = (Inr (), 3500) \<and>
   grace_period < 3500 - 0 \<and> 3500 < 0 + default_max_wait + (poll_interval + 0 + 0)"
proof -
  have e: "wait_for_results_smart env_closed default_max_wait 0 = (Inr (), 3500)"
    by (simp add: wait_for_results_smart_def wait_loop.simps poll_defs io_defs
        env_closed_def default_max_wait_def)
  from detector_never_raises [of env_closed default_max_wait 0 0 0] e
  show ?thesis
    by (simp add: env_closed_def default_max_wait_def grace_period_def)
qed

section \<open>Verification: context selection\<close>

text \<open>
  C5: the context that a task takes from a non-empty pool is the one at the index
  \<open>hint % poolSize\<close>, for every hint, negative ones included; the hint that
  \<open>search_multiple_businesses\<close> gives the task number \<open>i\<close> selects the index
  \<open>i % poolSize\<close>. The selection is an expression of the pool and the hint alone:
  it awaits nothing and waits for no other task.
\<close>

theorem context_selection_round_robin:
  "pool \<noteq> [] \<Longrightarrow>
   select_context pool hint = Inr (pool ! nat (hint mod int (length pool))) \<and>
   nat (hint mod int (length pool)) < length pool \<and>
   select_context pool (int i mod int (length pool)) = Inr (pool ! (i mod length pool))"
proof -
  assume p: "pool \<noteq> []"
  have "nat (int i mod int (length pool) mod int (length pool)) = i mod length pool"
    by (simp add: nat_mod_distrib)
  with p show ?thesis
    by (simp add: select_context_def nat_less_iff)
qed

theorem context_selection_round_robin_witness:
  "select_context [Context 0 0, Context 1 0, Context 2 0] 7 = Inr (Context 1 0) \<and>
   select_context [Context 0 0, Context 1 0, Context 2 0] (- 1) = Inr (Context 2 0) \<and>
   select_context [Context 0 0, Context 1 0, Context 2 0] (int 5 mod int 3) = Inr (Context 2 0)"
proof -
  have a: "select_context [Context 0 0, Context 1 0, Context 2 0] 7 =
      Inr ([Context 0 0, Context 1 0, Context 2 0] ! nat (7 mod int (length [Context 0 0, Context 1 0, Context 2 0])))"
    using context_selection_round_robin [of "[Context 0 0, Context 1 0, Context 2 0]" 7 0]
    by simp
  have b: "select_context [Context 0 0, Context 1 0, Context 2 0] (- 1) =
      Inr ([Context 0 0, Context 1 0, Context 2 0] ! nat (- 1 mod int (length [Context 0 0, Context 1 0, Context 2 0])))"
    using context_selection_round_robin [of "[Context 0 0, Context 1 0, Context 2 0]" "- 1" 0]
    by simp
  have c: "select_context [Context 0 0, Context 1 0, Context 2 0] (int 5 mod int 3) =
      Inr ([Context 0 0, Context 1 0, Context 2 0] ! (5 mod 3))"
    using context_selection_round_robin [of "[Context 0 0, Context 1 0, Context 2 0]" 0 5]
    by simp
  from a b c show ?thesis by simp
qed

text \<open>
  The helper \<open>_get_available_context\<close>, which no task calls, takes no hint and
  hands out the context at index 0 of every non-empty pool.
\<close>

lemma get_available_context_first:
  "pool \<noteq> [] \<Longrightarrow> get_available_context pool = Inr (pool ! 0)"
  by (simp add: get_available_context_def)

section \<open>Verification: exceptions delivered by gather\<close>

text \<open>
  C9: where \<open>gather\<close> delivers an exception object for the item number \<open>i\<close>, the
  outcome built for that item carries the name of the item, no content, no success,
  the string of the exception, and the default search time, which is 0.
\<close>

theorem gather_exception_outcome:
  assumes "length results = length business_names" and "i < length business_names"
    and "results ! i = Inl e"
  shows "process_results business_names results ! i =
           \<lparr>business_name = business_names ! i, html_content = [], success = False,
            error_message = message e, search_time = default_search_time\<rparr> \<and>
         default_search_time = 0"
  using assms by (simp add: process_results_def nth_enumerate_eq default_search_time_def)

theorem gather_exception_outcome_witness:
  "process_results [''Union Co-op'', ''Concordia Club'']
      [Inl (Exn ''boom''),
       Inr \<lparr>business_name = ''Concordia Club'', html_content = ''<html>'', success = True,
            error_message = [], search_time = 1200\<rparr>] ! 0 =
     \<lparr>business_name = ''Union Co-op'', html_content = [], success = False,
      error_message = ''boom'', search_time = 0\<rparr>"
  using gather_exception_outcome [of
      "[Inl (Exn ''boom''),
       Inr \<lparr>business_name = ''Concordia Club'', html_content = ''<html>'', success = True,
            error_message = [], search_time = 1200\<rparr>]"
      "[''Union Co-op'', ''Concordia Club'']" 0 "Exn ''boom''"]
  by simp

section \<open>Verification: the limiter\<close>

lemma holding_enter:
  "i < length ps \<Longrightarrow> ps ! i \<noteq> Holding \<Longrightarrow>
   length (filter (\<lambda>p. p = Holding) (ps[i := Holding])) =
   Suc (length (filter (\<lambda>p. p = Holding) ps))"
proof (induction ps arbitrary: i)
  case Nil
  then show ?case by simp
next
  case (Cons p ps)
  then show ?case by (cases i) auto
qed

lemma holding_leave:
  "i < length ps \<Longrightarrow> ps ! i = Holding \<Longrightarrow>
   Suc (length (filter (\<lambda>p. p = Holding) (ps[i := Released]))) =
   length (filter (\<lambda>p. p = Holding) ps)"
proof (induction ps arbitrary: i)
  case Nil
  then show ?case by simp
next
  case (Cons p ps)
  then show ?case by (cases i) auto
qed

lemma step_keeps_permits:
  "permits l + in_flight l = c \<Longrightarrow> permits (step l a) + in_flight (step l a) = c"
proof (cases a)
  case (Acquire i)
  assume c: "permits l + in_flight l = c"
  show ?thesis
  proof (cases "i < length (phases l) \<and> phases l ! i = Waiting \<and> 0 < permits l")
    case True
    then have "in_flight (step l a) = Suc (in_flight l)"
      using Acquire holding_enter [of i "phases l"] by (simp add: in_flight_def)
    with True c Acquire show ?thesis by simp
  next
    case False
    with c Acquire show ?thesis by auto
  qed
next
  case (Release i)
  assume c: "permits l + in_flight l = c"
  show ?thesis
  proof (cases "i < length (phases l) \<and> phases l ! i = Holding")
    case True
    then have "Suc (in_flight (step l a)) = in_flight l"
      using Release holding_leave [of i "phases l"] by (simp add: in_flight_def)
    with True c Release show ?thesis by simp
  next
    case False
    with c Release show ?thesis by auto
  qed
qed

lemma schedule_keeps_permits:
  "permits l + in_flight l = c \<Longrightarrow>
   permits (foldl step l schedule) + in_flight (foldl step l schedule) = c"
  by (induction schedule arbitrary: l) (simp_all add: step_keeps_permits)

text \<open>
  C8: whatever the schedule, the number of tasks between the acquire point and the
  release point, with the number of free permits, stays \<open>max_concurrent\<close>; so it
  never exceeds \<open>max_concurrent\<close>.
\<close>

theorem limiter_bound:
  "permits (run_schedule (new_limiter max_conc n) schedule) +
     in_flight (run_schedule (new_limiter max_conc n) schedule) = max_conc \<and>
   in_flight (run_schedule (new_limiter max_conc n) schedule) \<le> max_conc"
proof -
  have "permits (new_limiter max_conc n) + in_flight (new_limiter max_conc n) = max_conc"
    by (simp add: new_limiter_def in_flight_def)
  from schedule_keeps_permits [OF this, of schedule] show ?thesis
    by (simp add: run_schedule_def)
qed

section \<open>Verification: the resource pool\<close>

lemma context_loop_ok:
  "\<forall>j \<in> set js. new_context env i j = None \<Longrightarrow>
   context_loop env i js s = (Inr (), s\<lparr>context_pool := context_pool s @ map (Context i) js\<rparr>)"
  by (induction js arbitrary: s) auto

lemma launch_loop_ok:
  "\<forall>i \<in> set bs. launch env i = None \<and> (\<forall>j. new_context env i j = None) \<Longrightarrow>
   launch_loop env bs s =
     (Inr (), s\<lparr>browser_pool := browser_pool s @ map Browser bs,
                context_pool := context_pool s @ spec_context_pool s bs\<rparr>)"
proof (induction bs arbitrary: s)
  case Nil
  then show ?case by (simp add: spec_context_pool_def)
next
  case (Cons i bs)
  let ?s1 = "s\<lparr>browser_pool := browser_pool s @ [Browser i]\<rparr>"
  let ?n = "nat (max 1 (max_concurrent s div browser_pool_size s))"
  let ?s2 = "?s1\<lparr>context_pool := context_pool ?s1 @ map (Context i) [0..<?n]\<rparr>"
  have c: "context_loop env i [0..<?n] ?s1 = (Inr (), ?s2)"
    using Cons.prems by (intro context_loop_ok) simp
  have l: "launch_loop env bs ?s2 =
     (Inr (), ?s2\<lparr>browser_pool := browser_pool ?s2 @ map Browser bs,
                context_pool := context_pool ?s2 @ spec_context_pool ?s2 bs\<rparr>)"
    using Cons.prems by (intro Cons.IH) simp
  have "launch env i = None" using Cons.prems by simp
  then show ?case
    using c l by (simp add: Let_def spec_context_pool_def)
qed

lemma launch_loop_append:
  "launch_loop env (xs @ ys) s =
     (case launch_loop env xs s of
        (Inl e, s') \<Rightarrow> (Inl e, s')
      | (Inr u, s') \<Rightarrow> launch_loop env ys s')"
  by (induction xs arbitrary: s) (auto simp: Let_def split: option.splits prod.splits sum.splits)

lemma start_ok:
  assumes "playwright_start env = None"
    and "\<forall>i. launch env i = None" and "\<forall>i j. new_context env i j = None"
  shows "start env s =
     (Inr (), s\<lparr>playwright := True,
                browser_pool := browser_pool s @ map Browser [0..<nat (browser_pool_size s)],
                context_pool := context_pool s @ spec_context_pool s [0..<nat (browser_pool_size s)]\<rparr>)"
  using assms launch_loop_ok [of "[0..<nat (browser_pool_size s)]" env "s\<lparr>playwright := True\<rparr>"]
  by (simp add: start_def spec_context_pool_def)

lemma start_launch_fails:
  assumes "playwright_start env = None"
    and "k < nat (browser_pool_size s)" and "launch env k = Some e"
    and "\<forall>i<k. launch env i = None \<and> (\<forall>j. new_context env i j = None)"
  shows "start env s =
     (Inl e, s\<lparr>playwright := True,
                browser_pool := browser_pool s @ map Browser [0..<k],
                context_pool := context_pool s @ spec_context_pool s [0..<k]\<rparr>)"
proof -
  let ?s0 = "s\<lparr>playwright := True\<rparr>"
  have split: "[0..<nat (browser_pool_size s)] = [0..<k] @ k # [Suc k..<nat (browser_pool_size s)]"
    using assms(2) by (metis less_imp_le_nat upt_add_eq_append upt_conv_Cons le0 le_add_diff_inverse)
  have a: "launch_loop env [0..<k] ?s0 =
     (Inr (), ?s0\<lparr>browser_pool := browser_pool ?s0 @ map Browser [0..<k],
                context_pool := context_pool ?s0 @ spec_context_pool ?s0 [0..<k]\<rparr>)"
    using assms(4) by (intro launch_loop_ok) simp
  show ?thesis
    using assms(1,3) a by (simp add: start_def split launch_loop_append spec_context_pool_def)
qed

lemma async_with_not_entered:
  "fst (start env s) = Inl e \<Longrightarrow> async_with env block s = start env s"
  by (cases "start env s") (auto simp: async_with_def bind_io_def)

text \<open>
  C4, as the claim states it, fails: when the launch of the second browser fails,
  the run ends with that exception, and the first browser and its context, created
  before the failure, are still in the pools and no close call has been made on them:
  \<open>start\<close> has no handler, and \<open>__aexit__\<close> is not called when \<open>__aenter__\<close>
  raises.
\<close>

theorem start_leaves_partial_pool_counterexample:
  "batch_search_businesses env_second_launch_fails [''Union Co-op''] 5 0 =
     (Inl (Exn ''launch failed''),
      (new_scraper 5 0)\<lparr>playwright := True, browser_pool := [Browser 0],
                         context_pool := [Context 0 0]\<rparr>) \<and>
   closed ((new_scraper 5 0)\<lparr>playwright := True, browser_pool := [Browser 0],
                              context_pool := [Context 0 0]\<rparr>) = []"
  by (simp add: batch_search_businesses_def async_with_def bind_io_def start_def
      env_second_launch_fails_def env_all_ok_def new_scraper_def upt_conv_Cons Let_def)

text \<open>
  C4, amended: when no call fails, \<open>start\<close> adds \<open>browser_pool_size\<close> browsers to
  the pool, each with \<open>max(1, max_concurrent // browser_pool_size)\<close> contexts. When
  the launch number \<open>k\<close> fails after the earlier ones succeeded, \<open>start\<close> raises that
  exception, and so does the \<open>async with\<close>, whose block is not entered: the failure
  is fatal.
\<close>

theorem start_creates_pool:
  assumes "playwright_start env = None"
  shows "((\<forall>i. launch env i = None) \<and> (\<forall>i j. new_context env i j = None) \<longrightarrow>
           start env s =
             (Inr (), s\<lparr>playwright := True,
                browser_pool := browser_pool s @ map Browser [0..<nat (browser_pool_size s)],
                context_pool :=
                  context_pool s @ spec_context_pool s [0..<nat (browser_pool_size s)]\<rparr>)) \<and>
         (k < nat (browser_pool_size s) \<and> launch env k = Some e \<and>
          (\<forall>i<k. launch env i = None \<and> (\<forall>j. new_context env i j = None)) \<longrightarrow>
           fst (start env s) = Inl e \<and> async_with env block s = start env s)"
proof (intro conjI impI)
  assume "(\<forall>i. launch env i = None) \<and> (\<forall>i j. new_context env i j = None)"
  then show "start env s =
             (Inr (), s\<lparr>playwright := True,
                browser_pool := browser_pool s @ map Browser [0..<nat (browser_pool_size s)],
                context_pool :=
                  context_pool s @ spec_context_pool s [0..<nat (browser_pool_size s)]\<rparr>)"
    using start_ok [OF assms] by blast
next
  assume a: "k < nat (browser_pool_size s) \<and> launch env k = Some e \<and>
          (\<forall>i<k. launch env i = None \<and> (\<forall>j. new_context env i j = None))"
  then show f: "fst (start env s) = Inl e"
    using start_launch_fails [OF assms, of k s e] by simp
  then show "async_with env block s = start env s"
    by (rule async_with_not_entered)
qed

theorem start_creates_pool_witness:
  "start env_all_ok (new_scraper 5 0) =
     (Inr (), (new_scraper 5 0)\<lparr>playwright := True,
        browser_pool := [Browser 0, Browser 1, Browser 2],
        context_pool := [Context 0 0, Context 1 0, Context 2 0]\<rparr>) \<and>
   fst (start env_second_launch_fails (new_scraper 5 0)) = Inl (Exn ''launch failed'') \<and>
   async_with env_second_launch_fails (raise_io (Exn ''never run'')) (new_scraper 5 0) =
     start env_second_launch_fails (new_scraper 5 0)"
proof -
  have a: "start env_all_ok (new_scraper 5 0) =
     (Inr (), (new_scraper 5 0)\<lparr>playwright := True,
        browser_pool := [Browser 0, Browser 1, Browser 2],
        context_pool := [Context 0 0, Context 1 0, Context 2 0]\<rparr>)"
    using start_creates_pool [of env_all_ok "new_scraper 5 0"]
    by (simp add: env_all_ok_def new_scraper_def spec_context_pool_def upt_conv_Cons)
  have b: "fst (start env_second_launch_fails (new_scraper 5 0)) = Inl (Exn ''launch failed'') \<and>
     async_with env_second_launch_fails (raise_io (Exn ''never run'')) (new_scraper 5 0) =
       start env_second_launch_fails (new_scraper 5 0)"
    using start_creates_pool [of env_second_launch_fails "new_scraper 5 0" 1
        "Exn ''launch failed''" "raise_io (Exn ''never run'')"]
    by (simp add: env_second_launch_fails_def env_all_ok_def new_scraper_def)
  from a b show ?thesis by simp
qed

section \<open>Verification: the fetch task\<close>

lemma try_selector_no_click:
  "cannot_click env selector \<Longrightarrow> \<exists>t'. try_selector env selector t = (Inr False, t')"
  by (cases "fst (button_click env selector)")
     (auto simp: cannot_click_def try_selector_def io_defs step_io_def split: sum.splits)

lemma click_first_no_click:
  "\<forall>selector \<in> set selectors. cannot_click env selector \<Longrightarrow>
   \<exists>t'. click_first env selectors t = (Inr False, t')"
proof (induction selectors arbitrary: t)
  case Nil
  then show ?case by (simp add: return_io_def)
next
  case (Cons selector rest)
  then obtain t1 where "try_selector env selector t = (Inr False, t1)"
    using try_selector_no_click by (metis list.set_intros(1))
  moreover obtain t2 where "click_first env rest t1 = (Inr False, t2)"
    using Cons by (metis list.set_intros(2))
  ultimately show ?case by (simp add: bind_io_def)
qed

lemma quick_cookie_handling_returns:
  "\<exists>t'. quick_cookie_handling env t = (Inr (), t')"
  by (auto simp: quick_cookie_handling_def io_defs step_io_def sleep_io_def split: sum.splits)

lemma use_page_no_button:
  assumes "fst (goto env) = Inr ()" "fst (wait_for_query_box env) = Inr ()"
    "fst (fill_query env) = Inr ()"
    and "\<forall>selector \<in> set search_button_selectors. cannot_click env selector"
  shows "\<exists>t'. use_page env name start_time t = (Inl (Exn no_button_message), t')"
proof -
  obtain t1 where c: "quick_cookie_handling env (t + snd (goto env)) = (Inr (), t1)"
    using quick_cookie_handling_returns by blast
  obtain t2 where k: "click_first env search_button_selectors
      (t1 + snd (wait_for_query_box env) + snd (fill_query env)) = (Inr False, t2)"
    using click_first_no_click [OF assms(4)] by blast
  show ?thesis
    using assms(1,2,3) c k by (simp add: use_page_def bind_io_def step_io_def raise_io_def)
qed

text \<open>
  C6, as the claim states it, fails: when no selector leads to a click and
  \<open>page.close()\<close> in the \<open>finally\<close> block raises as well, the exception of
  \<open>close\<close> replaces the one of the task, and the error message of the outcome is
  the message of \<open>close\<close>, which is too short to contain the text about the search
  button.
\<close>

theorem no_button_message_lost_counterexample:
  "search_business_optimized task_close_fails [Context 0 0] ''Union Co-op'' 0 0 =
     (Inr \<lparr>business_name = ''Union Co-op'', html_content = [], success = False,
           error_message = ''Connection closed'', search_time = 2352\<rparr>, 2352) \<and>
   length ''Connection closed'' < length no_button_message"
  by (simp add: search_business_optimized_def with_page_def failed_search_def use_page_def
      select_context_def io_defs step_io_def task_close_fails_def task_no_button_def
      quick_cookie_handling_def search_button_selectors_def try_selector_def
      no_button_message_def)

text \<open>
  C6, amended: a task that reaches the search for the submit control and exhausts
  every selector without a click returns an outcome, raises nothing, and the outcome
  has no success and no content; its error message is "Could not find or click the
  search button" when \<open>page.close()\<close> returns, and the message of the exception of
  \<open>page.close()\<close> when that raises.
\<close>

theorem no_button_outcome:
  assumes "pool \<noteq> []"
    and "fst (new_page env (pool ! nat (context_id mod int (length pool)))) = Inr ()"
    and "fst (goto env) = Inr ()" and "fst (wait_for_query_box env) = Inr ()"
    and "fst (fill_query env) = Inr ()"
    and "\<forall>selector \<in> set search_button_selectors. cannot_click env selector"
  shows "\<exists>t'. search_business_optimized env pool name context_id t =
           (Inr \<lparr>business_name = name, html_content = [], success = False,
                 error_message = (case fst (close_page env) of
                                    Inr u \<Rightarrow> no_button_message
                                  | Inl e \<Rightarrow> message e),
                 search_time = t' - t\<rparr>, t')"
proof -
  let ?t1 = "t + acquire_wait env +
             snd (new_page env (pool ! nat (context_id mod int (length pool))))"
  obtain t2 where u: "use_page env name t ?t1 = (Inl (Exn no_button_message), t2)"
    using use_page_no_button [OF assms(3,4,5,6)] by blast
  show ?thesis
    using assms(1,2) u
    by (cases "fst (close_page env)")
       (simp_all add: search_business_optimized_def with_page_def failed_search_def
          select_context_def io_defs step_io_def)
qed

theorem no_button_outcome_witness:
  "search_business_optimized task_no_button [Context 0 0] ''Union Co-op'' 0 0 =
     (Inr \<lparr>business_name = ''Union Co-op'', html_content = [], success = False,
           error_message = ''Could not find or click the search button'',
           search_time = 2352\<rparr>, 2352)"
proof -
  have e: "search_business_optimized task_no_button [Context 0 0] ''Union Co-op'' 0 0 =
     (Inr \<lparr>business_name = ''Union Co-op'', html_content = [], success = False,
           error_message = ''Could not find or click the search button'',
           search_time = 2352\<rparr>, 2352)"
    by (simp add: search_business_optimized_def with_page_def failed_search_def use_page_def
      select_context_def io_defs step_io_def task_no_button_def
      quick_cookie_handling_def search_button_selectors_def try_selector_def
      no_button_message_def)
  have "\<exists>t'. search_business_optimized task_no_button [Context 0 0] ''Union Co-op'' 0 0 =
           (Inr \<lparr>business_name = ''Union Co-op'', html_content = [], success = False,
                 error_message = no_button_message, search_time = t' - 0\<rparr>, t')"
    using no_button_outcome [of "[Context 0 0]" task_no_button 0 "''Union Co-op''" 0]
    by (simp add: task_no_button_def cannot_click_def)
  with e show ?thesis by simp
qed

section \<open>Verification: the orchestrator\<close>






declare batch_loop.simps [simp del]
declare spec_batches.simps [simp del]

lemma spec_batches_empty [simp]: "spec_batches n [] = []"
  by (simp add: spec_batches.simps)



























end
